theory Spec2Isabelle
  imports Main "HOL-Library.Log_Nat"
begin

section \<open>The temperature converter of \<open>task 3/converter-script.js\<close>\<close>

text \<open>
  The script reads a text field and two radio groups, validates, converts through
  Celsius, rounds with \<open>Math.round(result * 100) / 100\<close> and displays the result.
  The validation and the conversion are embedded here function by function, over a
  model of the JavaScript Number type (IEEE 754 binary64) in which every arithmetic
  operation rounds its exact rational result to the nearest double, ties to even.
  The writes to the page (\<open>showError\<close>, \<open>showSuccess\<close>, \<open>displayResult\<close>, \<open>clearMessages\<close>)
  are not modelled: \<open>convertTemperature\<close> returns what it would show.
\<close>

subsection \<open>JavaScript numbers\<close>

text \<open>
  A Number is NaN, one of the two infinities, or a finite value given by the rational
  it denotes. The two zeros \<open>+0\<close> and \<open>-0\<close> are one value \<open>Fin 0\<close>: the script never
  divides by a variable, compares zeros only with \<open>===\<close> and prints \<open>-0\<close> as \<open>0\<close>,
  so no result of the script depends on the sign of a zero.
\<close>

datatype jsnum = NaN | PInf | NInf | Fin rat

text \<open>Rounding a rational to the nearest integer, ties to the even one.\<close>

definition rne :: "rat \<Rightarrow> int" where
  "rne q = (let f = \<lfloor>q\<rfloor>; d = q - of_int f
            in if d < 1/2 then f else if 1/2 < d then f + 1
               else if even f then f else f + 1)"

text \<open>
  \<open>ilog2 a\<close> is the binary exponent \<open>\<lfloor>log\<^sub>2 a\<rfloor>\<close> of a positive rational, computed from
  the bit length of its integer part (or of the integer part of its inverse).
\<close>

definition ilog2 :: "rat \<Rightarrow> int" where
  "ilog2 a = (if 1 \<le> a then bitlen \<lfloor>a\<rfloor> - 1 else - bitlen (\<lceil>1 / a\<rceil> - 1))"

text \<open>
  The spacing of the doubles around a positive rational: 52 fraction bits below the
  binary exponent, which is at least \<open>-1022\<close> (below it the subnormals are spaced
  \<open>2\<^sup>-\<^sup>1\<^sup>0\<^sup>7\<^sup>4\<close> apart).
\<close>

definition ulp :: "rat \<Rightarrow> rat" where
  "ulp a = 2 powi (max (ilog2 a) (- 1022) - 52)"

definition rnd_pos :: "rat \<Rightarrow> rat" where
  "rnd_pos a = of_int (rne (a / ulp a)) * ulp a"

text \<open>
  The Number value for a rational: round to nearest, ties to even; a result of
  magnitude \<open>2\<^sup>1\<^sup>0\<^sup>2\<^sup>4\<close> or more is the infinity of that sign.
\<close>

definition rnd :: "rat \<Rightarrow> jsnum" where
  "rnd x = (if x = 0 then Fin 0
            else if 0 < x
              then (let r = rnd_pos x in if 2 powi 1024 \<le> r then PInf else Fin r)
              else (let r = rnd_pos (- x) in if 2 powi 1024 \<le> r then NInf else Fin (- r)))"

text \<open>Unary minus, and the four arithmetic operators \<open>+\<close>, \<open>-\<close>, \<open>*\<close>, \<open>/\<close> on Numbers.\<close>

fun fneg :: "jsnum \<Rightarrow> jsnum" where
  "fneg NaN = NaN"
| "fneg PInf = NInf"
| "fneg NInf = PInf"
| "fneg (Fin x) = Fin (- x)"

fun fadd :: "jsnum \<Rightarrow> jsnum \<Rightarrow> jsnum" where
  "fadd NaN y = NaN"
| "fadd x NaN = NaN"
| "fadd PInf NInf = NaN"
| "fadd NInf PInf = NaN"
| "fadd PInf y = PInf"
| "fadd NInf y = NInf"
| "fadd x PInf = PInf"
| "fadd x NInf = NInf"
| "fadd (Fin x) (Fin y) = rnd (x + y)"

definition fsub :: "jsnum \<Rightarrow> jsnum \<Rightarrow> jsnum" where
  "fsub x y = fadd x (fneg y)"

text \<open>The infinity with the sign of a nonzero rational.\<close>

definition inf_of_sign :: "rat \<Rightarrow> jsnum" where
  "inf_of_sign s = (if 0 < s then PInf else NInf)"

fun fmul :: "jsnum \<Rightarrow> jsnum \<Rightarrow> jsnum" where
  "fmul NaN y = NaN"
| "fmul x NaN = NaN"
| "fmul PInf PInf = PInf"
| "fmul PInf NInf = NInf"
| "fmul NInf PInf = NInf"
| "fmul NInf NInf = PInf"
| "fmul PInf (Fin y) = (if y = 0 then NaN else inf_of_sign y)"
| "fmul NInf (Fin y) = (if y = 0 then NaN else inf_of_sign (- y))"
| "fmul (Fin x) PInf = (if x = 0 then NaN else inf_of_sign x)"
| "fmul (Fin x) NInf = (if x = 0 then NaN else inf_of_sign (- x))"
| "fmul (Fin x) (Fin y) = rnd (x * y)"

text \<open>
  Division; a zero divisor is taken as \<open>+0\<close> (the script only divides by the
  literals 9, 5 and 100).
\<close>

fun fdiv :: "jsnum \<Rightarrow> jsnum \<Rightarrow> jsnum" where
  "fdiv NaN y = NaN"
| "fdiv x NaN = NaN"
| "fdiv PInf PInf = NaN"
| "fdiv PInf NInf = NaN"
| "fdiv NInf PInf = NaN"
| "fdiv NInf NInf = NaN"
| "fdiv PInf (Fin y) = (if 0 \<le> y then PInf else NInf)"
| "fdiv NInf (Fin y) = (if 0 \<le> y then NInf else PInf)"
| "fdiv (Fin x) PInf = Fin 0"
| "fdiv (Fin x) NInf = Fin 0"
| "fdiv (Fin x) (Fin y) =
     (if y = 0 then (if x = 0 then NaN else inf_of_sign x) else rnd (x / y))"

text \<open>
  \<open>Math.round\<close>: the integer closest to the argument, the one closer to \<open>+\<infinity>\<close> when
  two are equally close. For a double the result is again a double, so no rounding
  to binary64 happens here.
\<close>

fun Math_round :: "jsnum \<Rightarrow> jsnum" where
  "Math_round (Fin x) = Fin (of_int \<lfloor>x + 1/2\<rfloor>)"
| "Math_round x = x"

definition isNaN :: "jsnum \<Rightarrow> bool" where
  "isNaN x = (x = NaN)"

text \<open>The comparison operators \<open><\<close> and \<open><=\<close> on Numbers; false when an operand is NaN.\<close>

fun flt :: "jsnum \<Rightarrow> jsnum \<Rightarrow> bool" where
  "flt NaN y = False"
| "flt x NaN = False"
| "flt PInf y = False"
| "flt x PInf = True"
| "flt NInf NInf = False"
| "flt NInf y = True"
| "flt x NInf = False"
| "flt (Fin x) (Fin y) = (x < y)"

fun fle :: "jsnum \<Rightarrow> jsnum \<Rightarrow> bool" where
  "fle NaN y = False"
| "fle x NaN = False"
| "fle x PInf = True"
| "fle PInf y = False"
| "fle NInf y = True"
| "fle x NInf = False"
| "fle (Fin x) (Fin y) = (x \<le> y)"

text \<open>A numeric literal of the source denotes the double nearest to its decimal value.\<close>

definition lit :: "rat \<Rightarrow> jsnum" where
  "lit x = rnd x"

subsection \<open>\<open>parseFloat\<close>\<close>

text \<open>
  Strings are sequences of code units below 256. \<open>parseFloat\<close> skips leading white
  space, takes the longest prefix that is a \<open>StrDecimalLiteral\<close> (an optional sign,
  then \<open>Infinity\<close>, or digits with an optional fraction and an optional exponent, or
  a fraction that starts with the point), and yields the Number value for it, NaN
  when there is no such prefix. The mathematical value of the literal is rounded
  exactly (ECMAScript allows an approximation beyond 20 significant digits).
\<close>

definition isWhiteSpace :: "char \<Rightarrow> bool" where
  "isWhiteSpace c = (of_char c \<in> set [9, 10, 11, 12, 13, 32, 160 :: nat])"

definition isDigit :: "char \<Rightarrow> bool" where
  "isDigit c = (c \<in> set ''0123456789'')"

definition digitVal :: "char \<Rightarrow> nat" where
  "digitVal c = of_char c - 48"

definition digitsVal :: "string \<Rightarrow> nat" where
  "digitsVal ds = foldl (\<lambda>n c. 10 * n + digitVal c) 0 ds"

text \<open>
  The value of the \<open>ExponentPart\<close> at the head of a string: \<open>e\<close> or \<open>E\<close>, an optional
  sign and at least one digit. Anything else is not part of the literal, and the
  exponent is 0.
\<close>

definition exponentPart :: "string \<Rightarrow> int" where
  "exponentPart r =
     (case r of
        [] \<Rightarrow> 0
      | c # r1 \<Rightarrow>
          if c = CHR ''e'' \<or> c = CHR ''E'' then
            (case r1 of
               [] \<Rightarrow> 0
             | s # r2 \<Rightarrow>
                 if s = CHR ''+'' then
                   int (digitsVal (takeWhile isDigit r2))
                 else if s = CHR ''-'' then
                   - int (digitsVal (takeWhile isDigit r2))
                 else int (digitsVal (takeWhile isDigit r1)))
          else 0)"

text \<open>The Number value of integer digits, fraction digits and a decimal exponent.\<close>

definition decimalValue :: "string \<Rightarrow> string \<Rightarrow> int \<Rightarrow> jsnum" where
  "decimalValue ip fp e =
     rnd (of_nat (digitsVal (ip @ fp)) * 10 powi (e - int (length fp)))"

definition strUnsignedDecimalLiteral :: "string \<Rightarrow> jsnum" where
  "strUnsignedDecimalLiteral s =
     (if take 8 s = ''Infinity'' then PInf
      else
        let ip = takeWhile isDigit s; r1 = dropWhile isDigit s in
        (case r1 of
           [] \<Rightarrow> if ip = [] then NaN else decimalValue ip [] 0
         | c # r2 \<Rightarrow>
             if c = CHR ''.'' then
               (let fp = takeWhile isDigit r2; r3 = dropWhile isDigit r2 in
                if ip = [] \<and> fp = [] then NaN
                else decimalValue ip fp (exponentPart r3))
             else if ip = [] then NaN
             else decimalValue ip [] (exponentPart r1)))"

definition trimStart :: "string \<Rightarrow> string" where
  "trimStart s = dropWhile isWhiteSpace s"

definition parseFloat :: "string \<Rightarrow> jsnum" where
  "parseFloat s =
     (case trimStart s of
        [] \<Rightarrow> NaN
      | c # r \<Rightarrow>
          if c = CHR ''+'' then strUnsignedDecimalLiteral r
          else if c = CHR ''-'' then fneg (strUnsignedDecimalLiteral r)
          else strUnsignedDecimalLiteral (c # r))"

subsection \<open>The conversion functions\<close>

text \<open>
  \<open>convertToCelsius\<close> and \<open>convertFromCelsius\<close> switch on the unit string; the
  \<open>default\<close> branch returns the value unchanged. The operators associate to the
  left, as in the source: \<open>(value - 32) * 5 / 9\<close> multiplies, then divides.
\<close>

definition convertToCelsius :: "jsnum \<Rightarrow> string \<Rightarrow> jsnum" where
  "convertToCelsius val unit =
     (if unit = ''celsius'' then val
      else if unit = ''fahrenheit'' then fdiv (fmul (fsub val (lit 32)) (lit 5)) (lit 9)
      else if unit = ''kelvin'' then fsub val (lit (27315 / 100))
      else val)"

definition convertFromCelsius :: "jsnum \<Rightarrow> string \<Rightarrow> jsnum" where
  "convertFromCelsius celsius unit =
     (if unit = ''celsius'' then celsius
      else if unit = ''fahrenheit'' then fadd (fdiv (fmul celsius (lit 9)) (lit 5)) (lit 32)
      else if unit = ''kelvin'' then fadd celsius (lit (27315 / 100))
      else celsius)"

definition convertTo :: "jsnum \<Rightarrow> string \<Rightarrow> string \<Rightarrow> jsnum" where
  "convertTo val fromUnit toUnit =
     (let celsius = convertToCelsius val fromUnit;
          result = convertFromCelsius celsius toUnit
      in result)"

subsection \<open>\<open>convertTemperature\<close>\<close>

text \<open>
  The two failures of \<open>convertTemperature\<close> are the two calls of \<open>showError\<close>;
  \<open>errorText\<close> is the message each one shows.
\<close>

datatype validation_error = InvalidNumber | SameUnit

fun errorText :: "validation_error \<Rightarrow> string" where
  "errorText InvalidNumber = ''Please enter a valid number''"
| "errorText SameUnit = ''Please select different input and output units''"

text \<open>The statement \<open>result = Math.round(result * 100) / 100\<close>.\<close>

definition round2 :: "jsnum \<Rightarrow> jsnum" where
  "round2 result = fdiv (Math_round (fmul result (lit 100))) (lit 100)"

text \<open>
  \<open>convertTemperature\<close>, as a function of the three values it reads from the page:
  the text of the input field and the values of the two checked radio buttons. It
  returns the failure shown, or the rounded result it passes to \<open>displayResult\<close>.
  This is the \<open>convert\<close> of the specification.
\<close>

definition convertTemperature :: "string \<Rightarrow> string \<Rightarrow> string \<Rightarrow> validation_error + jsnum" where
  "convertTemperature inputValue inputUnit outputUnit =
     (let temperatureValue = parseFloat inputValue in
      if inputValue = [] \<or> isNaN temperatureValue then Inl InvalidNumber
      else if inputUnit = outputUnit then Inl SameUnit
      else Inr (round2 (convertTo temperatureValue inputUnit outputUnit)))"

subsection \<open>Notions of the specification\<close>

text \<open>
  The specification speaks of inputs that are not parseable as a number, of rounding
  half away from zero, of a round trip and of a tolerance, of formulas and of their
  slopes. These are written down here from its words, to be compared with what the
  script computes.
\<close>

text \<open>
  A string starts with an unsigned decimal literal: the word \<open>Infinity\<close>, a digit, or
  a point followed by a digit.
\<close>

definition startsNumeric :: "string \<Rightarrow> bool" where
  "startsNumeric s =
     (take 8 s = ''Infinity'' \<or>
      (case s of
         [] \<Rightarrow> False
       | c # r \<Rightarrow> isDigit c \<or> (c = CHR ''.'' \<and> (case r of [] \<Rightarrow> False | d # _ \<Rightarrow> isDigit d))))"

definition afterSign :: "string \<Rightarrow> string" where
  "afterSign s =
     (case s of [] \<Rightarrow> [] | c # r \<Rightarrow> if c = CHR ''+'' \<or> c = CHR ''-'' then r else c # r)"

text \<open>The raw input has a numeric prefix, after leading white space and one optional sign.\<close>

definition hasNumericPrefix :: "string \<Rightarrow> bool" where
  "hasNumericPrefix raw = startsNumeric (afterSign (trimStart raw))"

text \<open>Rounding a rational to two decimals, half away from zero.\<close>

definition roundHalfAway2 :: "rat \<Rightarrow> rat" where
  "roundHalfAway2 x = sgn x * of_int \<lfloor>\<bar>x\<bar> * 100 + 1 / 2\<rfloor> / 100"



text \<open>The conversion formulas in exact rational arithmetic.\<close>

definition exactToCelsius :: "string \<Rightarrow> rat \<Rightarrow> rat" where
  "exactToCelsius unit v =
     (if unit = ''celsius'' then v
      else if unit = ''fahrenheit'' then (v - 32) * 5 / 9
      else if unit = ''kelvin'' then v - 27315 / 100
      else v)"

definition exactFromCelsius :: "string \<Rightarrow> rat \<Rightarrow> rat" where
  "exactFromCelsius unit c =
     (if unit = ''celsius'' then c
      else if unit = ''fahrenheit'' then c * 9 / 5 + 32
      else if unit = ''kelvin'' then c + 27315 / 100
      else c)"

text \<open>
  A Number is finite and within a tolerance of a rational: the value of a formula of
  the specification in exact arithmetic.
\<close>

fun approximates :: "jsnum \<Rightarrow> rat \<Rightarrow> rat \<Rightarrow> bool" where
  "approximates (Fin r) q tol = (\<bar>r - q\<bar> \<le> tol)"
| "approximates x q tol = False"

text \<open>
  The slope of a composed conversion: the slope of the normalisation (\<open>5/9\<close> from
  Fahrenheit, 1 otherwise) times the slope of the denormalisation (\<open>9/5\<close> to
  Fahrenheit, 1 otherwise).
\<close>

definition slope :: "string \<Rightarrow> string \<Rightarrow> rat" where
  "slope fromUnit toUnit =
     (if fromUnit = ''fahrenheit'' then 5 / 9 else 1) * (if toUnit = ''fahrenheit'' then 9 / 5 else 1)"

section \<open>Properties of the number model\<close>

subsection \<open>Powers of two and the binary exponent\<close>

lemma pow2_pos: "0 < (2::rat) powi e"
  by simp

lemma pow2_le_iff: "(2::rat) powi e \<le> 2 powi f \<longleftrightarrow> e \<le> f"
proof
  assume le: "(2::rat) powi e \<le> 2 powi f"
  show "e \<le> f"
  proof (rule ccontr)
    assume "\<not> e \<le> f"
    then have "f < e" by simp
    then have "(2::rat) powi f < 2 powi e" by (rule power_int_strict_increasing) simp
    with le show False by simp
  qed
next
  assume "e \<le> f"
  then show "(2::rat) powi e \<le> 2 powi f" by (rule power_int_increasing) simp
qed

lemma pow2_less_iff: "(2::rat) powi e < 2 powi f \<longleftrightarrow> e < f"
  using pow2_le_iff [of f e] by (auto simp add: not_le [symmetric])

lemma pow2_Suc: "(2::rat) powi (e + 1) = 2 * 2 powi e"
  by (simp add: power_int_add)

lemma pow2_mult: "(2::rat) powi a * 2 powi b = 2 powi (a + b)"
  by (simp add: power_int_add)

lemma pow2_diff: "(2::rat) powi a / 2 powi b = 2 powi (a - b)"
  by (simp add: power_int_diff)

lemma pow2_half: "(2::rat) powi (K - 52) / 2 = 2 powi (K - 53)"
proof -
  have "(2::rat) powi (K - 52) = 2 powi ((K - 53) + 1)" by simp
  also have "\<dots> = 2 * 2 powi (K - 53)" by (rule pow2_Suc)
  finally show ?thesis by simp
qed

text \<open>
  \<open>ilog2\<close> computes the binary exponent: the rational lies between the power of
  two it names and the next one, and no other exponent has this property.
\<close>

lemma ilog2_bounds:
  assumes "0 < a"
  shows "2 powi (ilog2 a) \<le> a" and "a < 2 powi (ilog2 a + 1)"
proof -
  show "2 powi (ilog2 a) \<le> a"
  proof (cases "1 \<le> a")
    case True
    define n where "n = \<lfloor>a\<rfloor>"
    have n: "0 < n" using True by (simp add: n_def)
    have b1: "1 \<le> bitlen n" using n by (simp add: bitlen_alt_def)
    have "(2::int) ^ nat (bitlen n - 1) \<le> n" using bitlen_bounds [OF n] by simp
    then have "rat_of_int (2 ^ nat (bitlen n - 1)) \<le> of_int n" by (simp only: of_int_le_iff)
    also have "\<dots> \<le> a" by (simp add: n_def)
    finally have "(2::rat) ^ nat (bitlen n - 1) \<le> a" by simp
    then show ?thesis using True b1 by (simp add: ilog2_def n_def power_int_def)
  next
    case False
    define m where "m = \<lceil>1 / a\<rceil> - 1"
    have b: "1 < 1 / a" using False assms by simp
    have m: "0 < m" using b by (simp add: m_def less_ceiling_iff)
    have "1 / a \<le> of_int (m + 1)" by (simp add: m_def)
    also have "m + 1 \<le> 2 ^ nat (bitlen m)" using bitlen_bounds [OF m] by simp
    then have "rat_of_int (m + 1) \<le> of_int (2 ^ nat (bitlen m))" by (simp only: of_int_le_iff)
    finally have "1 / a \<le> 2 ^ nat (bitlen m)" by simp
    then have "1 / 2 ^ nat (bitlen m) \<le> a" using assms
      by (simp add: field_simps)
    moreover have "(2::rat) powi (- bitlen m) = 1 / 2 ^ nat (bitlen m)"
      using bitlen_nonneg [of m] by (simp add: power_int_minus_divide power_int_def power_one_over)
    ultimately show ?thesis using False by (simp add: ilog2_def m_def)
  qed
  show "a < 2 powi (ilog2 a + 1)"
  proof (cases "1 \<le> a")
    case True
    define n where "n = \<lfloor>a\<rfloor>"
    have n: "0 < n" using True by (simp add: n_def)
    have "a < of_int (n + 1)" unfolding n_def by linarith
    also have "n + 1 \<le> 2 ^ nat (bitlen n)" using bitlen_bounds [OF n] by simp
    then have "rat_of_int (n + 1) \<le> of_int (2 ^ nat (bitlen n))" by (simp only: of_int_le_iff)
    finally have "a < 2 ^ nat (bitlen n)" by simp
    then show ?thesis using True bitlen_nonneg [of n] by (simp add: ilog2_def n_def power_int_def)
  next
    case False
    define m where "m = \<lceil>1 / a\<rceil> - 1"
    have b: "1 < 1 / a" using False assms by simp
    have m: "0 < m" using b by (simp add: m_def less_ceiling_iff)
    have b1: "1 \<le> bitlen m" using m by (simp add: bitlen_alt_def)
    have "(2::int) ^ nat (bitlen m - 1) \<le> m" using bitlen_bounds [OF m] by simp
    then have "rat_of_int (2 ^ nat (bitlen m - 1)) \<le> of_int m" by (simp only: of_int_le_iff)
    also have "rat_of_int m < 1 / a" unfolding m_def by linarith
    finally have "2 ^ nat (bitlen m - 1) < 1 / a" by simp
    then have "a < 1 / 2 ^ nat (bitlen m - 1)" using assms
      by (simp add: field_simps)
    moreover have "(2::rat) powi (- bitlen m + 1) = 1 / 2 ^ nat (bitlen m - 1)"
    proof -
      have "- bitlen m + 1 = - (bitlen m - 1)" by simp
      then show ?thesis using b1 by (simp only: power_int_minus_divide) (simp add: power_int_def)
    qed
    ultimately show ?thesis using False by (simp add: ilog2_def m_def)
  qed
qed

lemma ilog2_unique:
  assumes "0 < a" "2 powi e \<le> a" "a < 2 powi (e + 1)"
  shows "ilog2 a = e"
proof -
  have "(2::rat) powi e < 2 powi (ilog2 a + 1)"
    using assms(2) ilog2_bounds(2) [OF assms(1)] by (rule le_less_trans)
  then have 1: "e < ilog2 a + 1" by (simp only: pow2_less_iff)
  have "(2::rat) powi (ilog2 a) < 2 powi (e + 1)"
    using ilog2_bounds(1) [OF assms(1)] assms(3) by (rule le_less_trans)
  then have 2: "ilog2 a < e + 1" by (simp only: pow2_less_iff)
  from 1 2 show ?thesis by simp
qed

lemma ilog2_mono:
  assumes "0 < a" "a \<le> b"
  shows "ilog2 a \<le> ilog2 b"
proof -
  have b: "0 < b" using assms by simp
  have "(2::rat) powi (ilog2 a) \<le> a" using ilog2_bounds(1) [OF assms(1)] .
  also have "a \<le> b" by fact
  also have "b < 2 powi (ilog2 b + 1)" using ilog2_bounds(2) [OF b] .
  finally have "ilog2 a < ilog2 b + 1" by (simp only: pow2_less_iff)
  then show ?thesis by simp
qed

subsection \<open>Rounding to an integer\<close>

lemma rne_err: "\<bar>of_int (rne q) - q\<bar> \<le> 1 / 2"
proof -
  have "of_int \<lfloor>q\<rfloor> \<le> q" "q < of_int \<lfloor>q\<rfloor> + 1" by linarith+
  then show ?thesis by (auto simp add: rne_def Let_def)
qed

lemma rne_of_int: "rne (of_int n) = n"
  by (simp add: rne_def)

lemma rne_mono:
  assumes "p \<le> q"
  shows "rne p \<le> rne q"
proof (cases "\<lfloor>p\<rfloor> = \<lfloor>q\<rfloor>")
  case True
  then show ?thesis using assms by (auto simp add: rne_def Let_def)
next
  case False
  then have "\<lfloor>p\<rfloor> + 1 \<le> \<lfloor>q\<rfloor>" using floor_mono [OF assms] by simp
  moreover have "rne p \<le> \<lfloor>p\<rfloor> + 1" by (simp add: rne_def Let_def)
  moreover have "\<lfloor>q\<rfloor> \<le> rne q" by (simp add: rne_def Let_def)
  ultimately show ?thesis by linarith
qed

lemma rne_unique:
  assumes "\<bar>q - of_int m\<bar> < 1 / 2"
  shows "rne q = m"
proof -
  have "\<bar>of_int (rne q) - q\<bar> \<le> 1 / 2" by (rule rne_err)
  with assms have "\<bar>rat_of_int (rne q) - of_int m\<bar> < 1" by linarith
  then have "\<bar>rat_of_int (rne q - m)\<bar> < 1" by simp
  then have "\<bar>rne q - m\<bar> < 1" by (simp only: of_int_abs [symmetric] of_int_less_1_iff)
  then show ?thesis by simp
qed

lemma rne_nonneg: "0 \<le> q \<Longrightarrow> 0 \<le> rne q"
  using rne_mono [of 0 q] rne_of_int [of 0] by simp

subsection \<open>Rounding to binary64\<close>

lemma rnd_not_NaN: "rnd x \<noteq> NaN"
  by (simp add: rnd_def Let_def)

lemma rnd_0: "rnd 0 = Fin 0"
  by (simp add: rnd_def)

lemma rnd_minus: "rnd (- x) = fneg (rnd x)"
  by (cases "x = 0"; cases "0 < x") (auto simp add: rnd_def Let_def)

lemma ulp_pos: "0 < ulp a"
  by (simp add: ulp_def)

lemma ulp_normal:
  assumes "0 < a" "- 1022 \<le> e" "2 powi e \<le> a" "a < 2 powi (e + 1)"
  shows "ulp a = 2 powi (e - 52)"
  using ilog2_unique [OF assms(1,3,4)] assms(2) by (simp add: ulp_def)

lemma ulp_le:
  assumes "0 < a" "a \<le> 2 powi K" "- 1022 \<le> K"
  shows "ulp a \<le> 2 powi (K - 52)"
proof -
  have "(2::rat) powi (ilog2 a) \<le> 2 powi K"
    using ilog2_bounds(1) [OF assms(1)] assms(2) by (rule order_trans)
  then have "ilog2 a \<le> K" by (simp only: pow2_le_iff)
  then have "max (ilog2 a) (- 1022) - 52 \<le> K - 52" using assms(3) by simp
  then show ?thesis unfolding ulp_def by (simp only: pow2_le_iff)
qed

lemma abs_scale:
  assumes "0 < (u::rat)"
  shows "\<bar>x * u - a\<bar> = \<bar>x - a / u\<bar> * u"
proof -
  have "x * u - a = (x - a / u) * u" using assms by (simp add: field_simps)
  then have "\<bar>x * u - a\<bar> = \<bar>x - a / u\<bar> * \<bar>u\<bar>" by (simp only: abs_mult)
  then show ?thesis using assms by simp
qed

text \<open>
  A rounding is checked, not searched: given the binary exponent \<open>e\<close> and the
  integer significand \<open>m\<close>, the conditions are comparisons of numerals.
\<close>

lemma rnd_eqI:
  assumes "0 < a" "- 1022 \<le> e" "e \<le> 1022" "2 powi e \<le> a" "a < 2 powi (e + 1)"
    and "\<bar>a / 2 powi (e - 52) - of_int m\<bar> < 1 / 2"
    and "r = of_int m * 2 powi (e - 52)"
  shows "rnd a = Fin r"
proof -
  have u: "ulp a = 2 powi (e - 52)" using assms(1,2,4,5) by (rule ulp_normal)
  have m: "rne (a / 2 powi (e - 52)) = m" using assms(6) by (rule rne_unique)
  have rp: "rnd_pos a = r" by (simp add: rnd_pos_def u m assms(7))
  have "\<bar>of_int m * 2 powi (e - 52) - a\<bar> = \<bar>of_int m - a / 2 powi (e - 52)\<bar> * 2 powi (e - 52)"
    by (rule abs_scale) simp
  also have "\<dots> \<le> (1 / 2) * 2 powi (e - 52)"
  proof (rule mult_right_mono)
    show "\<bar>of_int m - a / 2 powi (e - 52)\<bar> \<le> 1 / 2" using assms(6) by linarith
    show "0 \<le> (2::rat) powi (e - 52)" by simp
  qed
  finally have 1: "r \<le> a + (1 / 2) * 2 powi (e - 52)" using assms(7) by linarith
  have 2: "(2::rat) powi (e - 52) \<le> 2 powi e" by (simp add: pow2_le_iff)
  have 3: "r < 2 * 2 powi (e + 1)"
    using 1 2 assms(5) pow2_pos [of e] pow2_Suc [of e] by linarith
  have 4: "2 * (2::rat) powi (e + 1) = 2 powi (e + 2)"
    using pow2_Suc [of "e + 1"] by (simp add: add.assoc)
  have "e + 2 \<le> 1024" using assms(3) by simp
  then have 5: "(2::rat) powi (e + 2) \<le> 2 powi 1024" by (simp only: pow2_le_iff)
  have "\<not> 2 powi 1024 \<le> r" using 3 4 5 by linarith
  then show ?thesis using assms(1) rp by (simp add: rnd_def Let_def)
qed

lemma rnd_eqI_neg:
  assumes "a < 0" "- 1022 \<le> e" "e \<le> 1022" "2 powi e \<le> - a" "- a < 2 powi (e + 1)"
    and "\<bar>- a / 2 powi (e - 52) - of_int m\<bar> < 1 / 2"
    and "r = - (of_int m * 2 powi (e - 52))"
  shows "rnd a = Fin r"
proof -
  have "rnd (- a) = Fin (- r)"
    using assms by (intro rnd_eqI [where e = e and m = m]) simp_all
  then have "fneg (rnd a) = Fin (- r)" by (simp only: rnd_minus)
  then show ?thesis by (cases "rnd a") simp_all
qed

text \<open>
  Rounding is monotone. Within one binade this is monotonicity of the integer
  rounding; across binades the power of two between the two arguments separates the
  results.
\<close>

lemma rnd_pos_nonneg: "0 < a \<Longrightarrow> 0 \<le> rnd_pos a"
  using ulp_pos [of a] by (simp add: rnd_pos_def rne_nonneg)

lemma rne_scaled_le:
  assumes "0 < a"
  shows "rne (a / ulp a) \<le> 2 ^ 53"
proof -
  define E where "E = max (ilog2 a) (- 1022)"
  have u: "ulp a = 2 powi (E - 52)" by (simp add: ulp_def E_def)
  have "a < 2 powi (ilog2 a + 1)" using assms by (rule ilog2_bounds(2))
  also have "\<dots> \<le> 2 powi (E + 1)" by (simp add: pow2_le_iff E_def)
  finally have "a / 2 powi (E - 52) \<le> 2 powi (E + 1) / 2 powi (E - 52)"
    by (simp add: divide_right_mono)
  also have "\<dots> = 2 powi 53" by (simp only: pow2_diff) simp
  also have "\<dots> = of_int (2 ^ 53)" by simp
  finally have "rne (a / 2 powi (E - 52)) \<le> rne (of_int (2 ^ 53))" by (rule rne_mono)
  then show ?thesis by (simp only: rne_of_int u)
qed

lemma rnd_pos_upper:
  assumes "0 < a"
  shows "rnd_pos a \<le> 2 powi (max (ilog2 a) (- 1022) + 1)"
proof -
  define E where "E = max (ilog2 a) (- 1022)"
  have u: "ulp a = 2 powi (E - 52)" by (simp add: ulp_def E_def)
  have "rne (a / ulp a) \<le> 2 ^ 53" using assms by (rule rne_scaled_le)
  then have "rat_of_int (rne (a / ulp a)) \<le> of_int (2 ^ 53)" by (simp only: of_int_le_iff)
  then have "rat_of_int (rne (a / ulp a)) \<le> 2 powi 53" by simp
  then have "rat_of_int (rne (a / ulp a)) * 2 powi (E - 52) \<le> 2 powi 53 * 2 powi (E - 52)"
    by (rule mult_right_mono) simp
  also have "\<dots> = 2 powi (53 + (E - 52))" by (simp only: pow2_mult)
  also have "53 + (E - 52) = E + 1" by simp
  finally show ?thesis by (simp add: rnd_pos_def u E_def)
qed

lemma rnd_pos_lower:
  assumes "0 < b" "- 1022 \<le> ilog2 b"
  shows "2 powi (ilog2 b) \<le> rnd_pos b"
proof -
  define E where "E = ilog2 b"
  have u: "ulp b = 2 powi (E - 52)" using assms(2) by (simp add: ulp_def E_def)
  have "(2::rat) powi 52 = 2 powi E / 2 powi (E - 52)" by (simp only: pow2_diff) simp
  also have "\<dots> \<le> b / 2 powi (E - 52)"
    using ilog2_bounds(1) [OF assms(1)] by (simp add: divide_right_mono E_def)
  finally have "rat_of_int (2 ^ 52) \<le> b / 2 powi (E - 52)" by simp
  then have "rne (of_int (2 ^ 52)) \<le> rne (b / 2 powi (E - 52))" by (rule rne_mono)
  then have "2 ^ 52 \<le> rne (b / 2 powi (E - 52))" by (simp only: rne_of_int)
  then have "rat_of_int (2 ^ 52) \<le> of_int (rne (b / 2 powi (E - 52)))"
    by (simp only: of_int_le_iff)
  then have "2 powi 52 \<le> rat_of_int (rne (b / 2 powi (E - 52)))" by simp
  then have "2 powi 52 * 2 powi (E - 52) \<le> rat_of_int (rne (b / 2 powi (E - 52))) * 2 powi (E - 52)"
    by (rule mult_right_mono) simp
  moreover have "(2::rat) powi 52 * 2 powi (E - 52) = 2 powi (52 + (E - 52))"
    by (simp only: pow2_mult)
  moreover have "52 + (E - 52) = E" by simp
  ultimately have "2 powi E \<le> rat_of_int (rne (b / 2 powi (E - 52))) * 2 powi (E - 52)"
    by (simp only:)
  then show ?thesis by (simp only: rnd_pos_def u E_def)
qed

lemma rnd_pos_mono:
  assumes "0 < a" "a \<le> b"
  shows "rnd_pos a \<le> rnd_pos b"
proof -
  have b: "0 < b" using assms by simp
  define Ea where "Ea = max (ilog2 a) (- 1022)"
  define Eb where "Eb = max (ilog2 b) (- 1022)"
  have le: "Ea \<le> Eb" using ilog2_mono [OF assms] by (simp add: Ea_def Eb_def)
  show ?thesis
  proof (cases "Ea = Eb")
    case True
    then have u: "ulp b = ulp a" by (simp add: ulp_def Ea_def Eb_def)
    have "a / ulp a \<le> b / ulp a" using assms(2) ulp_pos [of a] by (simp add: divide_right_mono)
    then have "rne (a / ulp a) \<le> rne (b / ulp a)" by (rule rne_mono)
    then have "rat_of_int (rne (a / ulp a)) \<le> of_int (rne (b / ulp a))"
      by (simp only: of_int_le_iff)
    then have "of_int (rne (a / ulp a)) * ulp a \<le> of_int (rne (b / ulp a)) * ulp a"
      using ulp_pos [of a] by (intro mult_right_mono) simp_all
    then show ?thesis by (simp add: rnd_pos_def u)
  next
    case False
    then have lt: "Ea < Eb" using le by simp
    then have eb: "Eb = ilog2 b" "- 1022 \<le> ilog2 b" by (auto simp add: Ea_def Eb_def)
    have "rnd_pos a \<le> 2 powi (Ea + 1)" unfolding Ea_def using assms(1) by (rule rnd_pos_upper)
    also have "\<dots> \<le> 2 powi Eb" using lt by (simp add: pow2_le_iff)
    also have "\<dots> \<le> rnd_pos b" unfolding eb(1) using b eb(2) by (rule rnd_pos_lower)
    finally show ?thesis .
  qed
qed

lemma fle_trans: "fle a b \<Longrightarrow> fle b c \<Longrightarrow> fle a c"
  by (cases a; cases b; cases c) auto

lemma rnd_nonneg: "0 \<le> y \<Longrightarrow> fle (Fin 0) (rnd y)"
  by (simp add: rnd_def Let_def rnd_pos_nonneg)

lemma rnd_nonpos: "x \<le> 0 \<Longrightarrow> fle (rnd x) (Fin 0)"
  by (simp add: rnd_def Let_def rnd_pos_nonneg)

lemma rnd_mono:
  assumes "x \<le> y"
  shows "fle (rnd x) (rnd y)"
proof -
  consider "0 < x" | "y < 0" | "x \<le> 0" "0 \<le> y" using assms by linarith
  then show ?thesis
  proof cases
    case 1
    then have y: "0 < y" using assms by simp
    have "rnd_pos x \<le> rnd_pos y" using 1 assms by (rule rnd_pos_mono)
    then show ?thesis using 1 y by (auto simp add: rnd_def Let_def)
  next
    case 2
    then have x: "x < 0" using assms by simp
    have "rnd_pos (- y) \<le> rnd_pos (- x)" using 2 assms by (intro rnd_pos_mono) simp_all
    then show ?thesis using 2 x by (auto simp add: rnd_def Let_def)
  next
    case 3
    show ?thesis using rnd_nonpos [OF 3(1)] rnd_nonneg [OF 3(2)] by (rule fle_trans)
  qed
qed

lemma fle_inf_rnd: "fle NInf (rnd x)" "fle (rnd x) PInf"
  using rnd_not_NaN [of x] by (cases "rnd x"; simp)+

lemma flt_imp_fle: "flt x y \<Longrightarrow> fle x y"
  by (cases x; cases y) simp_all

text \<open>
  A rational with a significand below \<open>2\<^sup>5\<^sup>3\<close> and an exponent of at least \<open>-1074\<close>, below
  \<open>2\<^sup>1\<^sup>0\<^sup>2\<^sup>4\<close> in magnitude, is a double: rounding leaves it unchanged.
\<close>

lemma rnd_pos_exact:
  assumes "0 < x" "x = of_int m * 2 powi k" "m < 2 ^ 53" "- 1074 \<le> k"
  shows "rnd_pos x = x"
proof -
  define E where "E = max (ilog2 x) (- 1022)"
  have u: "ulp x = 2 powi (E - 52)" by (simp add: ulp_def E_def)
  have "rat_of_int m < of_int (2 ^ 53)" using assms(3) by (simp only: of_int_less_iff)
  then have "rat_of_int m < 2 powi 53" by simp
  then have "of_int m * (2::rat) powi k < 2 powi 53 * 2 powi k"
    by (rule mult_strict_right_mono) simp
  also have "\<dots> = 2 powi (53 + k)" by (simp add: power_int_add)
  finally have "x < 2 powi (53 + k)" using assms(2) by simp
  with ilog2_bounds(1) [OF assms(1)] have "(2::rat) powi (ilog2 x) < 2 powi (53 + k)"
    by (rule le_less_trans)
  then have "ilog2 x < 53 + k" by (simp only: pow2_less_iff)
  then have Ek: "E - 52 \<le> k" using assms(4) by (simp add: E_def)
  define j where "j = nat (k - (E - 52))"
  have "x / ulp x = x / 2 powi (E - 52)" unfolding u ..
  also have "\<dots> = of_int m * 2 powi k / 2 powi (E - 52)"
    using assms(2) by (rule arg_cong [where f = "\<lambda>t. t / 2 powi (E - 52)"])
  also have "\<dots> = of_int m * (2 powi k / 2 powi (E - 52))" by simp
  also have "\<dots> = of_int m * 2 powi (k - (E - 52))" by (simp only: pow2_diff)
  also have "\<dots> = of_int m * 2 powi (int j)" using Ek by (simp add: j_def)
  also have "\<dots> = of_int (m * 2 ^ j)" by simp
  finally have q: "x / ulp x = of_int (m * 2 ^ j)" .
  have "rnd_pos x = (x / ulp x) * ulp x" unfolding rnd_pos_def q rne_of_int ..
  then show ?thesis using ulp_pos [of x] by simp
qed

lemma rnd_exact_pos:
  assumes "0 < x" "x = of_int m * 2 powi k" "m < 2 ^ 53" "- 1074 \<le> k" "x < 2 powi 1024"
  shows "rnd x = Fin x"
  using assms(1,5) rnd_pos_exact [OF assms(1-4)] by (simp add: rnd_def Let_def)

lemma rnd_exact:
  assumes "x = of_int m * 2 powi k" "\<bar>m\<bar> < 2 ^ 53" "- 1074 \<le> k" "\<bar>x\<bar> < 2 powi 1024"
  shows "rnd x = Fin x"
proof -
  consider "x = 0" | "0 < x" | "x < 0" by linarith
  then show ?thesis
  proof cases
    case 1
    then show ?thesis by (simp add: rnd_def)
  next
    case 2
    then have "0 < rat_of_int m * 2 powi k" using assms(1) by simp
    then have "0 < rat_of_int m" by (rule zero_less_mult_pos2) simp
    then have "0 < m" by simp
    then have "m < 2 ^ 53" using assms(2) by simp
    moreover have "x < 2 powi 1024" using assms(4) 2 by linarith
    ultimately show ?thesis using 2 assms(1,3) by (intro rnd_exact_pos [where m = m and k = k])
  next
    case 3
    then have "0 < rat_of_int (- m) * 2 powi k" using assms(1) by simp
    then have "0 < rat_of_int (- m)" by (rule zero_less_mult_pos2) simp
    then have "m < 0" by simp
    then have m: "- m < 2 ^ 53" using assms(2) by simp
    have x: "- x = of_int (- m) * 2 powi k" using assms(1) by simp
    have "- x < 2 powi 1024" using assms(4) 3 by linarith
    then have "rnd (- x) = Fin (- x)" using 3 x m assms(3)
      by (intro rnd_exact_pos [where m = "- m" and k = k]) simp_all
    then have "fneg (rnd x) = Fin (- x)" by (simp only: rnd_minus)
    then show ?thesis by (cases "rnd x") simp_all
  qed
qed

text \<open>
  Every finite result of a rounding is such a rational.
\<close>

lemma rnd_pos_is_double:
  assumes "0 < a"
  shows "\<exists>m k. rnd_pos a = of_int m * 2 powi k \<and> 0 \<le> m \<and> m \<le> 2 ^ 53 \<and> - 1074 \<le> k"
proof -
  have "0 \<le> a / ulp a" using assms ulp_pos [of a] by simp
  then have "0 \<le> rne (a / ulp a)" by (rule rne_nonneg)
  moreover have "rne (a / ulp a) \<le> 2 ^ 53" using assms by (rule rne_scaled_le)
  moreover have "- 1074 \<le> max (ilog2 a) (- 1022) - 52" by simp
  moreover have "rnd_pos a = of_int (rne (a / ulp a)) * 2 powi (max (ilog2 a) (- 1022) - 52)"
    by (simp add: rnd_pos_def ulp_def)
  ultimately show ?thesis by blast
qed

lemma rnd_is_double:
  assumes "rnd x = Fin r"
  shows "\<exists>m k. r = of_int m * 2 powi k \<and> \<bar>m\<bar> \<le> 2 ^ 53 \<and> - 1074 \<le> k"
proof -
  consider "x = 0" | "0 < x" | "x < 0" by linarith
  then show ?thesis
  proof cases
    case 1
    then have "r = of_int 0 * 2 powi 0" using assms by (simp add: rnd_def)
    then show ?thesis by (intro exI [of _ 0] exI [of _ "0::int"]) simp
  next
    case 2
    then have r: "r = rnd_pos x" using assms by (simp add: rnd_def Let_def split: if_splits)
    from rnd_pos_is_double [OF 2] obtain m k
      where "rnd_pos x = of_int m * 2 powi k" "0 \<le> m" "m \<le> 2 ^ 53" "- 1074 \<le> k" by blast
    then have "r = of_int m * 2 powi k \<and> \<bar>m\<bar> \<le> 2 ^ 53 \<and> - 1074 \<le> k" using r by simp
    then show ?thesis by blast
  next
    case 3
    then have r: "r = - rnd_pos (- x)" using assms by (simp add: rnd_def Let_def split: if_splits)
    from 3 have "0 < - x" by simp
    from rnd_pos_is_double [OF this] obtain m k
      where "rnd_pos (- x) = of_int m * 2 powi k" "0 \<le> m" "m \<le> 2 ^ 53" "- 1074 \<le> k" by blast
    then have "r = of_int (- m) * 2 powi k \<and> \<bar>- m\<bar> \<le> 2 ^ 53 \<and> - 1074 \<le> k" using r by simp
    then show ?thesis by blast
  qed
qed

text \<open>
  The rounding error is at most half a unit in the last place; below \<open>2\<^sup>3\<^sup>0\<close> in
  magnitude that is at most \<open>2\<^sup>-\<^sup>2\<^sup>3\<close>, and the result is finite.
\<close>

lemma rnd_pos_err:
  assumes "0 < a"
  shows "\<bar>rnd_pos a - a\<bar> \<le> ulp a / 2"
proof -
  have "\<bar>of_int (rne (a / ulp a)) * ulp a - a\<bar> = \<bar>of_int (rne (a / ulp a)) - a / ulp a\<bar> * ulp a"
    using ulp_pos [of a] by (rule abs_scale)
  also have "\<dots> \<le> (1 / 2) * ulp a"
    using rne_err [of "a / ulp a"] ulp_pos [of a] by (intro mult_right_mono) simp_all
  finally show ?thesis by (simp add: rnd_pos_def)
qed

lemma rnd_err_pos:
  assumes "0 < a" "a \<le> 2 powi K" "- 1022 \<le> K" "K \<le> 1022"
  shows "\<exists>r. rnd a = Fin r \<and> \<bar>r - a\<bar> \<le> 2 powi (K - 53)"
proof -
  have "\<bar>rnd_pos a - a\<bar> \<le> ulp a / 2" using assms(1) by (rule rnd_pos_err)
  also have "\<dots> \<le> 2 powi (K - 52) / 2"
    using ulp_le [OF assms(1-3)] by (simp add: divide_right_mono)
  also have "\<dots> = 2 powi (K - 53)" by (rule pow2_half)
  finally have e: "\<bar>rnd_pos a - a\<bar> \<le> 2 powi (K - 53)" .
  have "(2::rat) powi (K - 53) \<le> 2 powi K" by (simp add: pow2_le_iff)
  then have "rnd_pos a \<le> 2 * 2 powi K" using e assms(2) by linarith
  also have "\<dots> = 2 powi (K + 1)" by (simp only: pow2_Suc)
  also have "\<dots> < 2 powi 1024"
  proof -
    have "K + 1 < 1024" using assms(4) by simp
    then show ?thesis by (simp only: pow2_less_iff)
  qed
  finally have "\<not> 2 powi 1024 \<le> rnd_pos a" by simp
  then have "rnd a = Fin (rnd_pos a)" using assms(1) by (simp add: rnd_def Let_def)
  then show ?thesis using e by blast
qed



text \<open>
  Relative to the magnitude: the error is at most \<open>2\<^sup>-\<^sup>5\<^sup>3\<close> times any bound of the
  magnitude that is at least 1, as long as the bound is below the overflow threshold.
\<close>

lemma range_ok: "1000 * (10::rat) ^ 300 \<le> 2 powi 1022"
  by simp

lemma range_big: "1000 \<le> (10::rat) ^ 300"
  by simp

lemma pow2_m52: "(2::rat) powi (- 1074) \<le> 1 / 4503599627370496"
proof -
  have "(2::rat) powi (- 1074) \<le> 2 powi (- 52)" by (simp only: pow2_le_iff)
  also have "\<dots> = 1 / 4503599627370496" by (simp add: power_int_minus)
  finally show ?thesis .
qed

lemma rnd_pos_rel:
  assumes "0 < a" "a \<le> B" "1 \<le> B"
  shows "\<bar>rnd_pos a - a\<bar> \<le> B / 9007199254740992"
proof -
  have e: "\<bar>rnd_pos a - a\<bar> \<le> ulp a / 2" using assms(1) by (rule rnd_pos_err)
  have "ulp a \<le> B / 4503599627370496"
  proof (cases "- 1022 \<le> ilog2 a")
    case True
    then have "ulp a = 2 powi (ilog2 a - 52)" by (simp add: ulp_def)
    also have "\<dots> = 2 powi (ilog2 a) / 2 powi 52" by (simp only: pow2_diff)
    also have "\<dots> \<le> a / 2 powi 52"
      using ilog2_bounds(1) [OF assms(1)] by (simp add: divide_right_mono)
    also have "\<dots> \<le> B / 2 powi 52" using assms(2) by (simp add: divide_right_mono)
    finally show ?thesis by simp
  next
    case False
    then have "ulp a = 2 powi (- 1074)" by (simp add: ulp_def)
    then have "ulp a \<le> 1 / 4503599627370496" using pow2_m52 by simp
    then show ?thesis using assms(3) by linarith
  qed
  then show ?thesis using e by linarith
qed

lemma rnd_rel:
  assumes "\<bar>x\<bar> \<le> B" "1 \<le> B" "B \<le> 1000 * 10 ^ 300"
  shows "\<exists>r. rnd x = Fin r \<and> \<bar>r - x\<bar> \<le> B / 9007199254740992"
proof -
  have B: "B \<le> 2 powi 1022" using assms(3) range_ok by (rule order_trans)
  consider "x = 0" | "0 < x" | "x < 0" by linarith
  then show ?thesis
  proof cases
    case 1
    then show ?thesis using assms(2) by (simp add: rnd_def)
  next
    case 2
    then have "x \<le> 2 powi 1022" using assms(1) B by linarith
    with 2 obtain r where "rnd x = Fin r" using rnd_err_pos [of x 1022] by auto
    then have "rnd x = Fin (rnd_pos x)" using 2 by (simp add: rnd_def Let_def split: if_splits)
    moreover have "\<bar>rnd_pos x - x\<bar> \<le> B / 9007199254740992"
      using 2 assms(1,2) by (intro rnd_pos_rel) simp_all
    ultimately show ?thesis by blast
  next
    case 3
    then have p: "0 < - x" by simp
    then have "- x \<le> 2 powi 1022" using assms(1) B by linarith
    with p obtain r where "rnd (- x) = Fin r" using rnd_err_pos [of "- x" 1022] by auto
    then have "rnd (- x) = Fin (rnd_pos (- x))"
      using p by (simp add: rnd_def Let_def split: if_splits)
    then have "fneg (rnd x) = Fin (rnd_pos (- x))" by (simp only: rnd_minus)
    then have "rnd x = Fin (- rnd_pos (- x))" by (cases "rnd x") simp_all
    moreover have "\<bar>rnd_pos (- x) - (- x)\<bar> \<le> B / 9007199254740992"
      using p assms(1,2) by (intro rnd_pos_rel) simp_all
    then have "\<bar>- rnd_pos (- x) - x\<bar> \<le> B / 9007199254740992" by linarith
    ultimately show ?thesis by blast
  qed
qed

subsection \<open>Values\<close>

text \<open>
  The roundings that the concrete inputs of the next sections pass through, each
  checked by its exponent and significand.
\<close>

text \<open>
  The roundings that the concrete inputs of the next sections pass through, each
  checked by its exponent and significand.
\<close>

text \<open>
  The floor of a quotient of numerals is their integer quotient.
\<close>

lemma floor_rat:
  "\<lfloor>numeral a / numeral b :: rat\<rfloor> = numeral a div numeral b"
  "\<lfloor>1 / numeral b :: rat\<rfloor> = 1 div numeral b"
  by (metis floor_divide_of_int_eq of_int_numeral, metis floor_divide_of_int_eq of_int_1 of_int_numeral)

text \<open>The literals of the script; the double of 273.15 rounds to itself.\<close>

lemma rnd_32:
  "rnd 32 = Fin 32"
  by (rule rnd_eqI [where e = 5 and m = 4503599627370496]) simp_all

lemma rnd_5:
  "rnd 5 = Fin 5"
  by (rule rnd_eqI [where e = 2 and m = 5629499534213120]) simp_all

lemma rnd_9:
  "rnd 9 = Fin 9"
  by (rule rnd_eqI [where e = 3 and m = 5066549580791808]) simp_all

lemma rnd_100:
  "rnd 100 = Fin 100"
  by (rule rnd_eqI [where e = 6 and m = 7036874417766400]) simp_all

lemma rnd_27315:
  "rnd (5463 / 20) = Fin (2402652809016115 / 8796093022208)"
  by (rule rnd_eqI [where e = 8 and m = 4805305618032230]) simp_all

lemma rnd_27315_again:
  "rnd (2402652809016115 / 8796093022208) = Fin (2402652809016115 / 8796093022208)"
  by (rule rnd_eqI [where e = 8 and m = 4805305618032230]) simp_all

text \<open>The intermediate values of the four test vectors.\<close>

lemma rnd_vector_1:
  "rnd 3200 = Fin 3200"
  by (rule rnd_eqI [where e = 11 and m = 7036874417766400]) simp_all

lemma rnd_vector_2:
  "rnd (60066320225402875 / 2199023255552) = Fin (7508290028175359 / 274877906944)"
  by (rule rnd_eqI [where e = 14 and m = 7508290028175359]) simp_all

lemma rnd_vector_3:
  "rnd 900 = Fin 900"
  by (rule rnd_eqI [where e = 9 and m = 7916483719987200]) simp_all

lemma rnd_vector_4:
  "rnd 180 = Fin 180"
  by (rule rnd_eqI [where e = 7 and m = 6333186975989760]) simp_all

lemma rnd_vector_5:
  "rnd 212 = Fin 212"
  by (rule rnd_eqI [where e = 7 and m = 7459086882832384]) simp_all

lemma rnd_vector_6:
  "rnd 21200 = Fin 21200"
  by (rule rnd_eqI [where e = 14 and m = 5827411627212800]) simp_all

text \<open>The value of the input 10.\<close>

lemma rnd_10:
  "rnd 10 = Fin 10"
  by (rule rnd_eqI [where e = 3 and m = 5629499534213120]) simp_all

text \<open>The intermediate values of 30.875 Fahrenheit to Celsius.\<close>

lemma rnd_tie_1:
  "rnd (247 / 8) = Fin (247 / 8)"
  by (rule rnd_eqI [where e = 4 and m = 8690539905941504]) simp_all

lemma rnd_tie_2:
  "rnd (- (9 / 8)) = Fin (- (9 / 8))"
  by (rule rnd_eqI_neg [where e = 0 and m = 5066549580791808]) simp_all

lemma rnd_tie_3:
  "rnd (- (45 / 8)) = Fin (- (45 / 8))"
  by (rule rnd_eqI_neg [where e = 2 and m = 6333186975989760]) simp_all

lemma rnd_tie_4:
  "rnd (- (5 / 8)) = Fin (- (5 / 8))"
  by (rule rnd_eqI_neg [where e = "- 1" and m = 5629499534213120]) simp_all

lemma rnd_tie_5:
  "rnd (- (125 / 2)) = Fin (- (125 / 2))"
  by (rule rnd_eqI_neg [where e = 5 and m = 8796093022208000]) simp_all

lemma rnd_tie_6:
  "rnd (- (31 / 50)) = Fin (- (5584463537939415 / 9007199254740992))"
  by (rule rnd_eqI_neg [where e = "- 1" and m = 5584463537939415]) simp_all

lemma rnd_tie_7:
  "rnd (- (63 / 100)) = Fin (- (5674535530486825 / 9007199254740992))"
  by (rule rnd_eqI_neg [where e = "- 1" and m = 5674535530486825]) simp_all












text \<open>The intermediate values of 1e-20 Celsius to Kelvin.\<close>

lemma rnd_tiny_1:
  "rnd (1 / 100000000000000000000)
     = Fin (6646139978924579 / 664613997892457936451903530140172288)"
  by (rule rnd_eqI [where e = "- 67" and m = 6646139978924579]) simp_all

lemma rnd_tiny_2:
  "rnd (181539313524324870230271350214902301219 / 664613997892457936451903530140172288)
     = Fin (2402652809016115 / 8796093022208)"
  by (rule rnd_eqI [where e = 8 and m = 4805305618032230]) simp_all

lemma lit_32: "lit 32 = Fin 32"
  by (simp only: lit_def rnd_32)

lemma lit_5: "lit 5 = Fin 5"
  by (simp only: lit_def rnd_5)

lemma lit_9: "lit 9 = Fin 9"
  by (simp only: lit_def rnd_9)

lemma lit_100: "lit 100 = Fin 100"
  by (simp only: lit_def rnd_100)

lemma lit_27315: "lit (27315 / 100) = Fin (2402652809016115 / 8796093022208)"
  by (simp add: lit_def rnd_27315)

lemma lit_27315_reduced: "lit (5463 / 20) = Fin (2402652809016115 / 8796093022208)"
  by (simp add: lit_def rnd_27315)

lemmas parse_defs = parseFloat_def trimStart_def strUnsignedDecimalLiteral_def isWhiteSpace_def
  isDigit_def decimalValue_def digitsVal_def digitVal_def exponentPart_def

lemmas convert_defs = convertTemperature_def isNaN_def convertTo_def convertToCelsius_def
  convertFromCelsius_def round2_def lit_def fsub_def Let_def

subsection \<open>The arithmetic operators\<close>

lemma fadd_mono: "fle x y \<Longrightarrow> fle (fadd x (Fin c)) (fadd y (Fin c))"
  by (cases x; cases y) (simp_all add: rnd_mono fle_inf_rnd)

lemma fsub_mono: "fle x y \<Longrightarrow> fle (fsub x (Fin c)) (fsub y (Fin c))"
  by (cases x; cases y) (simp_all add: fsub_def rnd_mono fle_inf_rnd)

lemma fmul_mono: "0 < c \<Longrightarrow> fle x y \<Longrightarrow> fle (fmul x (Fin c)) (fmul y (Fin c))"
  by (cases x; cases y) (simp_all add: inf_of_sign_def rnd_mono fle_inf_rnd)

lemma fdiv_mono: "0 < c \<Longrightarrow> fle x y \<Longrightarrow> fle (fdiv x (Fin c)) (fdiv y (Fin c))"
  by (cases x; cases y) (simp_all add: rnd_mono divide_right_mono fle_inf_rnd)





lemma fadd_rel:
  "\<bar>x + c\<bar> \<le> B \<Longrightarrow> 1 \<le> B \<Longrightarrow> B \<le> 1000 * 10 ^ 300 \<Longrightarrow>
     \<exists>r. fadd (Fin x) (Fin c) = Fin r \<and> \<bar>r - (x + c)\<bar> \<le> B / 9007199254740992"
  using rnd_rel [of "x + c" B] by simp

lemma fsub_rel:
  "\<bar>x - c\<bar> \<le> B \<Longrightarrow> 1 \<le> B \<Longrightarrow> B \<le> 1000 * 10 ^ 300 \<Longrightarrow>
     \<exists>r. fsub (Fin x) (Fin c) = Fin r \<and> \<bar>r - (x - c)\<bar> \<le> B / 9007199254740992"
  using rnd_rel [of "x - c" B] by (simp add: fsub_def)

lemma fmul_rel:
  "\<bar>x * c\<bar> \<le> B \<Longrightarrow> 1 \<le> B \<Longrightarrow> B \<le> 1000 * 10 ^ 300 \<Longrightarrow>
     \<exists>r. fmul (Fin x) (Fin c) = Fin r \<and> \<bar>r - x * c\<bar> \<le> B / 9007199254740992"
  using rnd_rel [of "x * c" B] by simp

lemma fdiv_rel:
  "c \<noteq> 0 \<Longrightarrow> \<bar>x / c\<bar> \<le> B \<Longrightarrow> 1 \<le> B \<Longrightarrow> B \<le> 1000 * 10 ^ 300 \<Longrightarrow>
     \<exists>r. fdiv (Fin x) (Fin c) = Fin r \<and> \<bar>r - x / c\<bar> \<le> B / 9007199254740992"
  using rnd_rel [of "x / c" B] by simp

section \<open>Properties of the converter\<close>

subsection \<open>Inputs that \<open>parseFloat\<close> rejects\<close>

lemma parseFloat_Nil: "parseFloat [] = NaN"
  by (simp add: parseFloat_def trimStart_def)

lemma fneg_NaN_iff: "fneg x = NaN \<longleftrightarrow> x = NaN"
  by (cases x) simp_all

lemma decimalValue_not_NaN: "decimalValue ip fp e \<noteq> NaN"
  by (simp add: decimalValue_def rnd_not_NaN)

lemma isDigit_point: "\<not> isDigit CHR ''.''"
  by (simp add: isDigit_def)

lemma strUnsignedDecimalLiteral_NaN_iff:
  "strUnsignedDecimalLiteral s = NaN \<longleftrightarrow> \<not> startsNumeric s"
proof (cases s)
  case Nil
  then show ?thesis by (simp add: strUnsignedDecimalLiteral_def startsNumeric_def)
next
  case (Cons c r)
  show ?thesis
  proof (cases "isDigit c")
    case True
    then show ?thesis using Cons
      by (auto simp add: strUnsignedDecimalLiteral_def startsNumeric_def Let_def
          decimalValue_not_NaN split: list.splits)
  next
    case False
    then show ?thesis using Cons
      by (cases r)
         (auto simp add: strUnsignedDecimalLiteral_def startsNumeric_def Let_def
           decimalValue_not_NaN isDigit_point)
  qed
qed

lemma parseFloat_NaN_iff: "parseFloat raw = NaN \<longleftrightarrow> \<not> hasNumericPrefix raw"
proof (cases "trimStart raw")
  case Nil
  then show ?thesis
    by (simp add: parseFloat_def hasNumericPrefix_def afterSign_def startsNumeric_def)
next
  case (Cons c r)
  then show ?thesis
    by (simp add: parseFloat_def hasNumericPrefix_def afterSign_def fneg_NaN_iff
        strUnsignedDecimalLiteral_NaN_iff)
qed

lemma invalid_iff:
  "convertTemperature raw a b = Inl InvalidNumber \<longleftrightarrow> raw = [] \<or> parseFloat raw = NaN"
  by (simp add: convertTemperature_def isNaN_def Let_def)

lemma empty_no_prefix: "\<not> hasNumericPrefix []"
  by (simp add: hasNumericPrefix_def afterSign_def startsNumeric_def trimStart_def)

subsection \<open>Monotonicity of the two conversion steps\<close>

lemma convertToCelsius_mono:
  "fle x y \<Longrightarrow> fle (convertToCelsius x u) (convertToCelsius y u)"
  by (simp add: convertToCelsius_def lit_32 lit_5 lit_9 lit_27315_reduced fsub_mono fmul_mono fdiv_mono)

lemma convertFromCelsius_mono:
  "fle x y \<Longrightarrow> fle (convertFromCelsius x u) (convertFromCelsius y u)"
  by (simp add: convertFromCelsius_def lit_32 lit_5 lit_9 lit_27315_reduced fadd_mono fmul_mono fdiv_mono)

subsection \<open>The conversions against exact arithmetic\<close>

lemma unit_cases:
  obtains "u = ''celsius''" | "u = ''fahrenheit''" | "u = ''kelvin''"
    | "u \<noteq> ''celsius''" "u \<noteq> ''fahrenheit''" "u \<noteq> ''kelvin''"
  by blast

lemma exactToCelsius_eqs:
  "exactToCelsius ''celsius'' v = v"
  "exactToCelsius ''fahrenheit'' v = v * 5 / 9 - 160 / 9"
  "exactToCelsius ''kelvin'' v = v - 5463 / 20"
  "u \<noteq> ''celsius'' \<Longrightarrow> u \<noteq> ''fahrenheit'' \<Longrightarrow> u \<noteq> ''kelvin'' \<Longrightarrow> exactToCelsius u v = v"
  by (simp_all add: exactToCelsius_def field_simps)

lemma exactFromCelsius_eqs:
  "exactFromCelsius ''celsius'' c = c"
  "exactFromCelsius ''fahrenheit'' c = c * 9 / 5 + 32"
  "exactFromCelsius ''kelvin'' c = c + 5463 / 20"
  "u \<noteq> ''celsius'' \<Longrightarrow> u \<noteq> ''fahrenheit'' \<Longrightarrow> u \<noteq> ''kelvin'' \<Longrightarrow> exactFromCelsius u c = c"
  by (simp_all add: exactFromCelsius_def)


lemma exactFromCelsius_lip:
  assumes "\<bar>x - y\<bar> \<le> d"
  shows "\<bar>exactFromCelsius u x - exactFromCelsius u y\<bar> \<le> 9 / 5 * d"
proof (cases u rule: unit_cases)
  case 1
  show ?thesis using assms unfolding 1 exactFromCelsius_eqs by linarith
next
  case 2
  show ?thesis using assms unfolding 2 exactFromCelsius_eqs by linarith
next
  case 3
  show ?thesis using assms unfolding 3 exactFromCelsius_eqs by linarith
next
  case 4
  have e: "exactFromCelsius u z = z" for z using 4 by (rule exactFromCelsius_eqs(4))
  show ?thesis using assms unfolding e by linarith
qed

lemma exactToCelsius_bound:
  assumes "\<bar>v\<bar> \<le> B"
  shows "\<bar>exactToCelsius u v\<bar> \<le> B + 274"
proof (cases u rule: unit_cases)
  case 1
  show ?thesis using assms unfolding 1 exactToCelsius_eqs by linarith
next
  case 2
  show ?thesis using assms unfolding 2 exactToCelsius_eqs by linarith
next
  case 3
  show ?thesis using assms unfolding 3 exactToCelsius_eqs by linarith
next
  case 4
  have e: "exactToCelsius u z = z" for z using 4 by (rule exactToCelsius_eqs(4))
  show ?thesis using assms unfolding e by linarith
qed




lemma exact_conversion_strictly_increasing:
  assumes "x < y"
  shows "exactFromCelsius b (exactToCelsius a x) < exactFromCelsius b (exactToCelsius a y)"
proof -
  have 1: "exactToCelsius a x < exactToCelsius a y"
  proof (cases a rule: unit_cases)
    case 1 show ?thesis using assms unfolding 1 exactToCelsius_eqs by linarith
  next
    case 2 show ?thesis using assms unfolding 2 exactToCelsius_eqs by linarith
  next
    case 3 show ?thesis using assms unfolding 3 exactToCelsius_eqs by linarith
  next
    case 4
    have e: "exactToCelsius a z = z" for z using 4 by (rule exactToCelsius_eqs(4))
    show ?thesis using assms unfolding e by linarith
  qed
  have 2: "exactFromCelsius b c < exactFromCelsius b d" if "c < d" for c d
  proof (cases b rule: unit_cases)
    case 1 show ?thesis using that unfolding 1 exactFromCelsius_eqs by linarith
  next
    case 2 show ?thesis using that unfolding 2 exactFromCelsius_eqs by linarith
  next
    case 3 show ?thesis using that unfolding 3 exactFromCelsius_eqs by linarith
  next
    case 4
    have e: "exactFromCelsius b z = z" for z using 4 by (rule exactFromCelsius_eqs(4))
    show ?thesis using that unfolding e by linarith
  qed
  from 1 show ?thesis by (rule 2)
qed





text \<open>
  The same comparison relative to the magnitude of the value, for every value below
  \<open>10\<^sup>3\<^sup>0\<^sup>0\<close> in magnitude: no intermediate result overflows there.
\<close>

lemma convertToCelsius_rel:
  assumes "\<bar>v\<bar> \<le> 10 ^ 300"
  shows "\<exists>c. convertToCelsius (Fin v) u = Fin c
           \<and> \<bar>c - exactToCelsius u v\<bar> \<le> 3 * (\<bar>v\<bar> + 274) / 9007199254740992"
proof -
  define M where "M = \<bar>v\<bar> + 274"
  have M0: "274 \<le> M" "M \<le> 10 ^ 300 + 274" using assms by (simp_all add: M_def)
  have M: "1 \<le> M" "6 * M \<le> 1000 * 10 ^ 300" "\<bar>v\<bar> + 274 \<le> M"
    using M0 range_big by (simp_all add: M_def)
  have M1: "M \<le> 1000 * 10 ^ 300" "1 \<le> 6 * M" using M by linarith+
  have "\<exists>c. convertToCelsius (Fin v) u = Fin c
           \<and> \<bar>c - exactToCelsius u v\<bar> \<le> 3 * M / 9007199254740992"
  proof (cases u rule: unit_cases)
    case 1
    then show ?thesis using M(1) by (simp add: convertToCelsius_def exactToCelsius_def)
  next
    case 2
    have "\<bar>v - 32\<bar> \<le> M" using M(3) by linarith
    then obtain r1 where r1: "fsub (Fin v) (Fin 32) = Fin r1"
      "\<bar>r1 - (v - 32)\<bar> \<le> M / 9007199254740992"
      using fsub_rel M(1) M1(1) by blast
    have "\<bar>r1 * 5\<bar> \<le> 6 * M" using M r1(2) by linarith
    then obtain r2 where r2: "fmul (Fin r1) (Fin 5) = Fin r2"
      "\<bar>r2 - r1 * 5\<bar> \<le> 6 * M / 9007199254740992"
      using fmul_rel M(2) M1(2) by blast
    have "\<bar>r2 / 9\<bar> \<le> M" using M r1(2) r2(2) by linarith
    then obtain r3 where r3: "fdiv (Fin r2) (Fin 9) = Fin r3"
      "\<bar>r3 - r2 / 9\<bar> \<le> M / 9007199254740992"
      using fdiv_rel [of 9 r2 M] M(1) M1(1) by auto
    have "convertToCelsius (Fin v) u = Fin r3"
      using 2 by (simp add: convertToCelsius_def lit_32 lit_5 lit_9 r1(1) r2(1) r3(1)
          del: fadd.simps fmul.simps fdiv.simps)
    moreover have "\<bar>r3 - exactToCelsius u v\<bar> \<le> 3 * M / 9007199254740992"
      using M(1) r1(2) r2(2) r3(2) unfolding 2 exactToCelsius_eqs by linarith
    ultimately show ?thesis by blast
  next
    case 3
    have "\<bar>v - 2402652809016115 / 8796093022208\<bar> \<le> M" using M(3) by linarith
    then obtain r1 where r1: "fsub (Fin v) (Fin (2402652809016115 / 8796093022208)) = Fin r1"
      "\<bar>r1 - (v - 2402652809016115 / 8796093022208)\<bar> \<le> M / 9007199254740992"
      using fsub_rel M(1) M1(1) by blast
    have "convertToCelsius (Fin v) u = Fin r1"
      using 3 by (simp add: convertToCelsius_def lit_27315_reduced r1(1) del: fadd.simps)
    moreover have "\<bar>r1 - exactToCelsius u v\<bar> \<le> 3 * M / 9007199254740992"
      using M(3) r1(2) unfolding 3 exactToCelsius_eqs by linarith
    ultimately show ?thesis by blast
  next
    case 4
    then show ?thesis using M(1) by (simp add: convertToCelsius_def exactToCelsius_def)
  qed
  then show ?thesis by (simp only: M_def)
qed

lemma convertFromCelsius_rel:
  assumes "\<bar>c\<bar> \<le> 2 * 10 ^ 300"
  shows "\<exists>t. convertFromCelsius (Fin c) u = Fin t
           \<and> \<bar>t - exactFromCelsius u c\<bar> \<le> 7 * (\<bar>c\<bar> + 274) / 9007199254740992"
proof -
  define M where "M = \<bar>c\<bar> + 274"
  have M0: "274 \<le> M" "M \<le> 2 * 10 ^ 300 + 274" using assms by (simp_all add: M_def)
  have M: "1 \<le> M" "9 * M \<le> 1000 * 10 ^ 300" "\<bar>c\<bar> + 274 \<le> M"
    using M0 range_big by (simp_all add: M_def)
  have M1: "M \<le> 1000 * 10 ^ 300" "1 \<le> 9 * M" "1 \<le> 2 * M" "2 * M \<le> 1000 * 10 ^ 300"
    "1 \<le> 3 * M" "3 * M \<le> 1000 * 10 ^ 300" using M by linarith+
  have "\<exists>t. convertFromCelsius (Fin c) u = Fin t
           \<and> \<bar>t - exactFromCelsius u c\<bar> \<le> 7 * M / 9007199254740992"
  proof (cases u rule: unit_cases)
    case 1
    then show ?thesis using M(1) by (simp add: convertFromCelsius_def exactFromCelsius_def)
  next
    case 2
    have "\<bar>c * 9\<bar> \<le> 9 * M" using M(3) by linarith
    then obtain r1 where r1: "fmul (Fin c) (Fin 9) = Fin r1"
      "\<bar>r1 - c * 9\<bar> \<le> 9 * M / 9007199254740992"
      using fmul_rel M(2) M1(2) by blast
    have "\<bar>r1 / 5\<bar> \<le> 2 * M" using M r1(2) by linarith
    then obtain r2 where r2: "fdiv (Fin r1) (Fin 5) = Fin r2"
      "\<bar>r2 - r1 / 5\<bar> \<le> 2 * M / 9007199254740992"
      using fdiv_rel [of 5 r1 "2 * M"] M1(3,4) by auto
    have "\<bar>r2 + 32\<bar> \<le> 3 * M" using M r1(2) r2(2) by linarith
    then obtain r3 where r3: "fadd (Fin r2) (Fin 32) = Fin r3"
      "\<bar>r3 - (r2 + 32)\<bar> \<le> 3 * M / 9007199254740992"
      using fadd_rel M1(5,6) by blast
    have "convertFromCelsius (Fin c) u = Fin r3"
      using 2 by (simp add: convertFromCelsius_def lit_32 lit_5 lit_9 r1(1) r2(1) r3(1)
          del: fadd.simps fmul.simps fdiv.simps)
    moreover have "\<bar>r3 - exactFromCelsius u c\<bar> \<le> 7 * M / 9007199254740992"
      using M(1) r1(2) r2(2) r3(2) unfolding 2 exactFromCelsius_eqs by linarith
    ultimately show ?thesis by blast
  next
    case 3
    have "\<bar>c + 2402652809016115 / 8796093022208\<bar> \<le> M" using M(3) by linarith
    then obtain r1 where r1: "fadd (Fin c) (Fin (2402652809016115 / 8796093022208)) = Fin r1"
      "\<bar>r1 - (c + 2402652809016115 / 8796093022208)\<bar> \<le> M / 9007199254740992"
      using fadd_rel M(1) M1(1) by blast
    have "convertFromCelsius (Fin c) u = Fin r1"
      using 3 by (simp add: convertFromCelsius_def lit_27315_reduced r1(1) del: fadd.simps)
    moreover have "\<bar>r1 - exactFromCelsius u c\<bar> \<le> 7 * M / 9007199254740992"
      using M(3) r1(2) unfolding 3 exactFromCelsius_eqs by linarith
    ultimately show ?thesis by blast
  next
    case 4
    then show ?thesis using M(1) by (simp add: convertFromCelsius_def exactFromCelsius_def)
  qed
  then show ?thesis by (simp only: M_def)
qed

lemma convertTo_rel:
  assumes "\<bar>v\<bar> \<le> 10 ^ 300"
  shows "\<exists>t. convertTo (Fin v) a b = Fin t
           \<and> \<bar>t - exactFromCelsius b (exactToCelsius a v)\<bar> \<le> (\<bar>v\<bar> + 274) / 281474976710656"
proof -
  define M where "M = \<bar>v\<bar> + 274"
  have M: "274 \<le> M" "M \<le> 10 ^ 300 + 274" "\<bar>v\<bar> \<le> M - 274"
    using assms unfolding M_def by linarith+
  obtain c where c: "convertToCelsius (Fin v) a = Fin c"
    "\<bar>c - exactToCelsius a v\<bar> \<le> 3 * M / 9007199254740992"
    using convertToCelsius_rel [OF assms] unfolding M_def by blast
  have "\<bar>exactToCelsius a v\<bar> \<le> M - 274 + 274" using M(3) by (rule exactToCelsius_bound)
  then have cb: "\<bar>c\<bar> \<le> M + 3 * M / 9007199254740992" using c(2) by linarith
  then have "\<bar>c\<bar> \<le> 2 * 10 ^ 300" using M range_big by linarith
  then obtain t where t: "convertFromCelsius (Fin c) b = Fin t"
    "\<bar>t - exactFromCelsius b c\<bar> \<le> 7 * (\<bar>c\<bar> + 274) / 9007199254740992"
    using convertFromCelsius_rel by blast
  define N where "N = \<bar>c\<bar> + 274"
  have "N \<le> M + 3 * M / 9007199254740992 + 274" using cb by (simp add: N_def)
  moreover have "\<bar>t - exactFromCelsius b c\<bar> \<le> 7 * N / 9007199254740992"
    using t(2) by (simp only: N_def)
  ultimately have t2: "\<bar>t - exactFromCelsius b c\<bar> \<le> 15 * M / 9007199254740992"
    using M(1) by linarith
  have "\<bar>exactFromCelsius b c - exactFromCelsius b (exactToCelsius a v)\<bar>
          \<le> 9 / 5 * (3 * M / 9007199254740992)"
    using c(2) by (rule exactFromCelsius_lip)
  then have l: "\<bar>exactFromCelsius b c - exactFromCelsius b (exactToCelsius a v)\<bar>
          \<le> 6 * M / 9007199254740992" using M(1) by simp
  have "convertTo (Fin v) a b = Fin t" by (simp add: convertTo_def c(1) t(1))
  moreover have "\<bar>t - exactFromCelsius b (exactToCelsius a v)\<bar> \<le> M / 281474976710656"
    using t2 l M(1) by linarith
  ultimately show ?thesis unfolding M_def by blast
qed

lemma exact_conversion_slope:
  "exactFromCelsius b (exactToCelsius a q) - exactFromCelsius b (exactToCelsius a p)
     = slope a b * (q - p)"
  by (simp add: exactFromCelsius_def exactToCelsius_def slope_def algebra_simps diff_divide_distrib)

lemma slope_cases: "slope a b = 1 \<or> slope a b = 5 / 9 \<or> slope a b = 9 / 5"
  by (simp add: slope_def)

lemma slope_lower: "5 / 9 \<le> slope a b"
  by (simp add: slope_def)

lemma convertTo_strict:
  assumes "\<bar>p\<bar> \<le> 10 ^ 300" "\<bar>q\<bar> \<le> 10 ^ 300"
    and "(\<bar>p\<bar> + \<bar>q\<bar> + 548) / 140737488355328 \<le> q - p"
  shows "flt (convertTo (Fin p) a b) (convertTo (Fin q) a b)"
proof -
  obtain s where s: "convertTo (Fin p) a b = Fin s"
    "\<bar>s - exactFromCelsius b (exactToCelsius a p)\<bar> \<le> (\<bar>p\<bar> + 274) / 281474976710656"
    using convertTo_rel [OF assms(1)] by blast
  obtain t where t: "convertTo (Fin q) a b = Fin t"
    "\<bar>t - exactFromCelsius b (exactToCelsius a q)\<bar> \<le> (\<bar>q\<bar> + 274) / 281474976710656"
    using convertTo_rel [OF assms(2)] by blast
  define S where "S = \<bar>p\<bar> + \<bar>q\<bar> + 548"
  have S: "548 \<le> S" "\<bar>p\<bar> + 274 + (\<bar>q\<bar> + 274) = S" by (simp_all add: S_def)
  define d where "d = q - p"
  have g: "S / 140737488355328 \<le> d" using assms(3) by (simp only: S_def d_def)
  have pq: "0 < d" using S(1) g by linarith
  have "5 / 9 * d \<le> slope a b * d"
    using slope_lower by (rule mult_right_mono) (use pq in simp)
  then have "5 / 9 * d
      \<le> exactFromCelsius b (exactToCelsius a q) - exactFromCelsius b (exactToCelsius a p)"
    by (simp only: exact_conversion_slope d_def)
  moreover have "\<bar>s - exactFromCelsius b (exactToCelsius a p)\<bar>
      + \<bar>t - exactFromCelsius b (exactToCelsius a q)\<bar> \<le> S / 281474976710656"
    using s(2) t(2) S(2) by (simp add: add_divide_distrib [symmetric] del: add_divide_distrib) 
  ultimately have "s < t" using g pq by linarith
  then show ?thesis by (simp add: s(1) t(1))
qed

section \<open>The claims of the specification\<close>

subsection \<open>The conversion passes through Celsius\<close>



subsection \<open>Test vectors\<close>

text \<open>
  Claim C2. The four numeric test vectors: 0 Celsius is 32 Fahrenheit, 32 Fahrenheit
  is 0 Celsius, 0 Celsius is 273.15 Kelvin (the double that the literal \<open>273.15\<close>
  denotes) and 100 Celsius is 212 Fahrenheit, each after the rounding to two
  decimals.
\<close>

theorem test_vectors:
  "convertTemperature ''0'' ''celsius'' ''fahrenheit'' = Inr (Fin 32)
   \<and> convertTemperature ''32'' ''fahrenheit'' ''celsius'' = Inr (Fin 0)
   \<and> convertTemperature ''0'' ''celsius'' ''kelvin'' = Inr (lit (27315 / 100))
   \<and> convertTemperature ''100'' ''celsius'' ''fahrenheit'' = Inr (Fin 212)"
  by (simp add: parse_defs convert_defs floor_rat rnd_0
      rnd_9 rnd_5 rnd_32 rnd_100 rnd_vector_1 rnd_27315 rnd_27315_again rnd_vector_2
      rnd_vector_3 rnd_vector_4 rnd_vector_5 rnd_vector_6)

subsection \<open>Invalid numbers\<close>

text \<open>
  The claim C3 says that the input is rejected with \<open>InvalidNumber\<close> exactly when it
  is empty or not parseable as a finite number, \<open>Infinity\<close> included. The script tests
  \<open>isNaN\<close>, not finiteness: \<open>Infinity\<close> parses to the infinite Number, passes the
  validation and is converted.
\<close>

theorem infinity_not_rejected:
  "parseFloat ''Infinity'' = PInf
   \<and> convertTemperature ''Infinity'' ''celsius'' ''fahrenheit'' = Inr PInf"
  by (simp add: parse_defs convert_defs inf_of_sign_def rnd_9 rnd_5 rnd_32 rnd_100)

text \<open>
  Claim C3, amended. \<open>convertTemperature\<close> fails with \<open>InvalidNumber\<close> exactly when the
  raw input has no numeric prefix: after leading white space and one optional sign
  it does not start with a digit, with a point followed by a digit, or with the word
  \<open>Infinity\<close>. The empty string and \<open>abc\<close> are such inputs and are rejected;
  \<open>12abc\<close> and \<open>Infinity\<close> have a numeric prefix and are not.
\<close>

theorem invalid_number_iff_no_numeric_prefix:
  "(convertTemperature raw a b = Inl InvalidNumber) = (\<not> hasNumericPrefix raw)
   \<and> convertTemperature [] a b = Inl InvalidNumber
   \<and> convertTemperature ''abc'' a b = Inl InvalidNumber
   \<and> convertTemperature ''12abc'' a b \<noteq> Inl InvalidNumber
   \<and> convertTemperature ''Infinity'' a b \<noteq> Inl InvalidNumber"
proof -
  have iff: "(convertTemperature s a b = Inl InvalidNumber) = (\<not> hasNumericPrefix s)" for s
    using empty_no_prefix by (auto simp add: invalid_iff parseFloat_NaN_iff)
  have "\<not> hasNumericPrefix ''abc''" "hasNumericPrefix ''12abc''" "hasNumericPrefix ''Infinity''"
    by (simp_all add: hasNumericPrefix_def afterSign_def startsNumeric_def trimStart_def
        isWhiteSpace_def isDigit_def)
  then show ?thesis using empty_no_prefix by (simp add: iff)
qed

subsection \<open>Equal units\<close>

text \<open>
  Claim C4. When the raw input parses as a finite number and the source unit equals
  the target unit, \<open>convertTemperature\<close> fails with \<open>SameUnit\<close> and converts nothing.
  The unit may be any string, in particular each of the three unit names.
\<close>

theorem same_unit_rejected:
  "parseFloat raw = Fin x \<Longrightarrow> convertTemperature raw u u = Inl SameUnit"
  by (auto simp add: convertTemperature_def isNaN_def parseFloat_Nil)

theorem same_unit_rejected_witness:
  "parseFloat ''10'' = Fin 10 \<and> convertTemperature ''10'' ''celsius'' ''celsius'' = Inl SameUnit"
proof -
  have h: "parseFloat ''10'' = Fin 10" by (simp add: parse_defs rnd_10)
  show ?thesis using h same_unit_rejected [OF h, of "''celsius''"] by simp
qed

subsection \<open>The order of the two checks\<close>

text \<open>
  The claim C5 says that an input that is empty or not parseable as a finite number
  is rejected with \<open>InvalidNumber\<close> also when the units are equal. For \<open>Infinity\<close> with
  equal units the script reports \<open>SameUnit\<close>, since \<open>Infinity\<close> passes the first check.
\<close>

theorem infinity_same_unit_reported:
  "parseFloat ''Infinity'' = PInf
   \<and> convertTemperature ''Infinity'' ''celsius'' ''celsius'' = Inl SameUnit"
  by (simp add: parse_defs convert_defs)

text \<open>
  Claim C5, amended. The number check runs before the unit check: when the raw input
  is empty or \<open>parseFloat\<close> yields NaN for it, \<open>convertTemperature\<close> fails with
  \<open>InvalidNumber\<close> for every pair of units, equal units included.
\<close>

theorem invalid_number_before_same_unit:
  "raw = [] \<or> parseFloat raw = NaN \<Longrightarrow>
     convertTemperature raw a b = Inl InvalidNumber \<and> convertTemperature raw u u = Inl InvalidNumber"
  by (simp add: invalid_iff)

theorem invalid_number_before_same_unit_witness:
  "(''abc'' = [] \<or> parseFloat ''abc'' = NaN)
   \<and> convertTemperature ''abc'' ''celsius'' ''fahrenheit'' = Inl InvalidNumber
   \<and> convertTemperature ''abc'' ''celsius'' ''celsius'' = Inl InvalidNumber"
proof -
  have h: "''abc'' = [] \<or> parseFloat ''abc'' = NaN" by (simp add: parse_defs)
  show ?thesis
    using h invalid_number_before_same_unit [OF h, of "''celsius''" "''fahrenheit''" "''celsius''"]
    by simp
qed

subsection \<open>Rounding to two decimals\<close>

text \<open>
  The claim C6 says that the result is rounded half away from zero. 30.875 Fahrenheit
  is exactly \<open>-0.625\<close> Celsius, in double arithmetic too; half away from zero gives
  \<open>-0.63\<close>, the script gives \<open>-0.62\<close>, since \<open>Math.round(-62.5)\<close> is \<open>-62\<close>.
\<close>

theorem negative_tie_rounds_toward_zero:
  "convertTo (parseFloat ''30.875'') ''fahrenheit'' ''celsius'' = Fin (- (5 / 8))
   \<and> roundHalfAway2 (- (5 / 8)) = - (63 / 100)
   \<and> convertTemperature ''30.875'' ''fahrenheit'' ''celsius'' = Inr (lit (- (62 / 100)))
   \<and> lit (- (62 / 100)) \<noteq> lit (- (63 / 100))"
  by (simp add: parse_defs convert_defs roundHalfAway2_def
      rnd_tie_1 rnd_32 rnd_tie_2 rnd_5 rnd_tie_3 rnd_9 rnd_tie_4 rnd_100 rnd_tie_5
      rnd_tie_6 rnd_tie_7)

text \<open>
  Claim C6, amended. For a validated input whose converted value times 100 is a
  finite Number \<open>y\<close>, the result is the double nearest to \<open>n / 100\<close>, where \<open>n\<close> is the
  integer nearest to \<open>y\<close> and, of two equally near integers, the greater one:
  \<open>y - 1/2 < n \<le> y + 1/2\<close>. A tie is rounded towards \<open>+\<infinity>\<close>: away from zero for a
  positive value, towards zero for a negative one.
\<close>

theorem round2_nearest_ties_up:
  assumes "convertTemperature raw a b = Inr r"
    and "fmul (convertTo (parseFloat raw) a b) (lit 100) = Fin y"
  shows "r = rnd (of_int \<lfloor>y + 1 / 2\<rfloor> / 100)
         \<and> y - 1 / 2 < of_int \<lfloor>y + 1 / 2\<rfloor> \<and> of_int \<lfloor>y + 1 / 2\<rfloor> \<le> y + 1 / 2"
proof -
  have "r = round2 (convertTo (parseFloat raw) a b)"
    using assms(1) by (simp add: convertTemperature_def Let_def split: if_splits)
  moreover have "fmul (convertTo (parseFloat raw) a b) (Fin 100) = Fin y"
    using assms(2) by (simp only: lit_100)
  ultimately have "r = rnd (of_int \<lfloor>y + 1 / 2\<rfloor> / 100)"
    by (simp add: round2_def lit_100)
  moreover have "y - 1 / 2 < of_int \<lfloor>y + 1 / 2\<rfloor>" "of_int \<lfloor>y + 1 / 2\<rfloor> \<le> y + 1 / 2"
    by linarith+
  ultimately show ?thesis by simp
qed

theorem round2_nearest_ties_up_witness:
  "convertTemperature ''30.875'' ''fahrenheit'' ''celsius'' = Inr (lit (- (62 / 100)))
   \<and> fmul (convertTo (parseFloat ''30.875'') ''fahrenheit'' ''celsius'') (lit 100) = Fin (- (125 / 2))
   \<and> lit (- (62 / 100)) = rnd (of_int \<lfloor>- (125 / 2) + 1 / 2 :: rat\<rfloor> / 100)
   \<and> - (125 / 2) - 1 / 2 < rat_of_int \<lfloor>- (125 / 2) + 1 / 2 :: rat\<rfloor>
   \<and> rat_of_int \<lfloor>- (125 / 2) + 1 / 2 :: rat\<rfloor> \<le> - (125 / 2) + 1 / 2"
proof -
  have h1: "convertTemperature ''30.875'' ''fahrenheit'' ''celsius'' = Inr (lit (- (62 / 100)))"
    by (simp add: parse_defs convert_defs
        rnd_tie_1 rnd_32 rnd_tie_2 rnd_5 rnd_tie_3 rnd_9 rnd_tie_4 rnd_100 rnd_tie_5
        rnd_tie_6)
  have h2: "fmul (convertTo (parseFloat ''30.875'') ''fahrenheit'' ''celsius'') (lit 100)
              = Fin (- (125 / 2))"
    by (simp add: parse_defs convert_defs
        rnd_tie_1 rnd_32 rnd_tie_2 rnd_5 rnd_tie_3 rnd_9 rnd_tie_4 rnd_100 rnd_tie_5)
  show ?thesis using round2_nearest_ties_up [OF h1 h2] h1 h2 by simp
qed

subsection \<open>Round trip\<close>




subsection \<open>Unrecognised units\<close>

text \<open>
  Claim C9. For a unit string other than \<open>celsius\<close>, \<open>fahrenheit\<close> and \<open>kelvin\<close> the
  \<open>default\<close> branches return the value unchanged: \<open>convertToCelsius\<close> and
  \<open>convertFromCelsius\<close> are the identity, so \<open>convertTo\<close> treats an unrecognised unit on
  either side as Celsius.
\<close>

theorem default_branch_identity:
  assumes "unit \<noteq> ''celsius''" "unit \<noteq> ''fahrenheit''" "unit \<noteq> ''kelvin''"
  shows "convertToCelsius v unit = v \<and> convertFromCelsius v unit = v
         \<and> convertTo v unit t = convertTo v ''celsius'' t
         \<and> convertTo v f unit = convertTo v f ''celsius''"
  using assms by (simp add: convertTo_def convertToCelsius_def convertFromCelsius_def)

theorem default_branch_identity_witness:
  "''rankine'' \<noteq> ''celsius'' \<and> ''rankine'' \<noteq> ''fahrenheit'' \<and> ''rankine'' \<noteq> ''kelvin''
   \<and> convertToCelsius (Fin 5) ''rankine'' = Fin 5 \<and> convertFromCelsius (Fin 5) ''rankine'' = Fin 5
   \<and> convertTo (Fin 5) ''rankine'' ''kelvin'' = convertTo (Fin 5) ''celsius'' ''kelvin''
   \<and> convertTo (Fin 5) ''kelvin'' ''rankine'' = convertTo (Fin 5) ''kelvin'' ''celsius''"
proof -
  have h: "''rankine'' \<noteq> ''celsius''" "''rankine'' \<noteq> ''fahrenheit''" "''rankine'' \<noteq> ''kelvin''"
    by simp_all
  show ?thesis
    using default_branch_identity [OF h, of "Fin 5" "''kelvin''" "''kelvin''"] h by simp
qed

subsection \<open>Monotonicity\<close>

text \<open>
  The claim C10 says that \<open>convertTo\<close> is strictly increasing in the value. In double
  arithmetic distinct inputs can give the same result: 0 and \<open>1e-20\<close> Celsius are both
  273.15 Kelvin.
\<close>

theorem distinct_inputs_equal_results:
  "flt (parseFloat ''0'') (parseFloat ''1e-20'')
   \<and> convertTo (parseFloat ''0'') ''celsius'' ''kelvin''
       = convertTo (parseFloat ''1e-20'') ''celsius'' ''kelvin''
   \<and> \<not> flt (convertTo (parseFloat ''0'') ''celsius'' ''kelvin'')
           (convertTo (parseFloat ''1e-20'') ''celsius'' ''kelvin'')"
  by (simp add: parse_defs convert_defs rnd_0
      rnd_27315 rnd_27315_again rnd_tiny_1 rnd_tiny_2)

text \<open>
  Claim C10, amended. For every pair of unit strings the conversion follows a
  strictly increasing affine map, up to the rounding of the double operations. The
  composed formulas in exact arithmetic are affine with slope 1, \<open>5/9\<close> or \<open>9/5\<close>;
  for a value \<open>p\<close> of magnitude at most \<open>10\<^sup>3\<^sup>0\<^sup>0\<close> the result of \<open>convertTo\<close> is finite and
  within \<open>2\<^sup>-\<^sup>4\<^sup>8\<close> of \<open>|p| + 274\<close> of them. \<open>convertTo\<close> is non-decreasing for all Numbers
  (\<open>x < y\<close> gives \<open>convertTo x a b <= convertTo y a b\<close>), strictly increasing from
  Celsius to Celsius, where nothing is computed, and for every pair of units strictly
  increasing beyond rounding distance: for values \<open>p\<close>, \<open>q\<close> of magnitude at most \<open>10\<^sup>3\<^sup>0\<^sup>0\<close> with
  \<open>q - p\<close> at least \<open>2\<^sup>-\<^sup>4\<^sup>7\<close> of \<open>|p| + |q| + 548\<close>, \<open>convertTo p a b < convertTo q a b\<close>.
\<close>

theorem convertTo_increasing:
  "(flt x y \<longrightarrow> fle (convertTo x a b) (convertTo y a b))
   \<and> (flt x y \<longrightarrow> flt (convertTo x ''celsius'' ''celsius'') (convertTo y ''celsius'' ''celsius''))
   \<and> (\<bar>p\<bar> \<le> 10 ^ 300 \<and> \<bar>q\<bar> \<le> 10 ^ 300 \<and> (\<bar>p\<bar> + \<bar>q\<bar> + 548) / 2 ^ 47 \<le> q - p
        \<longrightarrow> flt (convertTo (Fin p) a b) (convertTo (Fin q) a b))
   \<and> (\<bar>p\<bar> \<le> 10 ^ 300
        \<longrightarrow> approximates (convertTo (Fin p) a b) (exactFromCelsius b (exactToCelsius a p))
              ((\<bar>p\<bar> + 274) / 2 ^ 48))
   \<and> exactFromCelsius b (exactToCelsius a q) - exactFromCelsius b (exactToCelsius a p)
       = slope a b * (q - p)
   \<and> (slope a b = 1 \<or> slope a b = 5 / 9 \<or> slope a b = 9 / 5)"
proof -
  have 1: "flt x y \<longrightarrow> fle (convertTo x a b) (convertTo y a b)"
    by (simp add: convertTo_def convertToCelsius_mono convertFromCelsius_mono flt_imp_fle)
  have 2: "flt (convertTo (Fin p) a b) (convertTo (Fin q) a b)"
    if "\<bar>p\<bar> \<le> 10 ^ 300" "\<bar>q\<bar> \<le> 10 ^ 300" "(\<bar>p\<bar> + \<bar>q\<bar> + 548) / 2 ^ 47 \<le> q - p"
  proof -
    have "(\<bar>p\<bar> + \<bar>q\<bar> + 548) / 140737488355328 \<le> q - p" using that(3) by simp
    with that(1,2) show ?thesis by (rule convertTo_strict)
  qed
  have 3: "approximates (convertTo (Fin p) a b) (exactFromCelsius b (exactToCelsius a p))
      ((\<bar>p\<bar> + 274) / 2 ^ 48)" if range: "\<bar>p\<bar> \<le> 10 ^ 300"
  proof -
    obtain r where r: "convertTo (Fin p) a b = Fin r"
      "\<bar>r - exactFromCelsius b (exactToCelsius a p)\<bar> \<le> (\<bar>p\<bar> + 274) / 281474976710656"
      using convertTo_rel [OF range] by blast
    show ?thesis using r(2) by (simp add: r(1))
  qed
  have 4: "flt x y \<longrightarrow> flt (convertTo x ''celsius'' ''celsius'') (convertTo y ''celsius'' ''celsius'')"
    by (simp add: convertTo_def convertToCelsius_def convertFromCelsius_def)
  show ?thesis using 1 2 3 4 exact_conversion_slope [of b a q p] slope_cases [of a b] by blast
qed

theorem convertTo_increasing_witness:
  "flt (Fin 0) (Fin (1 / 10 ^ 11))
   \<and> fle (convertTo (Fin 0) ''celsius'' ''kelvin'') (convertTo (Fin (1 / 10 ^ 11)) ''celsius'' ''kelvin'')
   \<and> \<bar>0 :: rat\<bar> \<le> 10 ^ 300 \<and> \<bar>1 / 10 ^ 11 :: rat\<bar> \<le> 10 ^ 300
   \<and> (\<bar>0 :: rat\<bar> + \<bar>1 / 10 ^ 11\<bar> + 548) / 2 ^ 47 \<le> 1 / 10 ^ 11 - 0
   \<and> flt (convertTo (Fin 0) ''celsius'' ''kelvin'') (convertTo (Fin (1 / 10 ^ 11)) ''celsius'' ''kelvin'')
   \<and> approximates (convertTo (Fin 0) ''celsius'' ''kelvin'') (27315 / 100) (274 / 2 ^ 48)"
proof -
  have h: "flt (Fin 0) (Fin (1 / 10 ^ 11))" "\<bar>0 :: rat\<bar> \<le> 10 ^ 300"
    "\<bar>1 / 10 ^ 11 :: rat\<bar> \<le> 10 ^ 300"
    "(\<bar>0 :: rat\<bar> + \<bar>1 / 10 ^ 11\<bar> + 548) / 2 ^ 47 \<le> 1 / 10 ^ 11 - 0"
    by simp_all
  show ?thesis
    using h convertTo_increasing [of "Fin 0" "Fin (1 / 10 ^ 11)" "''celsius''" "''kelvin''"
        0 "1 / 10 ^ 11"]
    by (simp add: exactFromCelsius_def exactToCelsius_def)
qed

end
